theory Spec2Isabelle
  imports Main "HOL-Library.AList" "HOL-Library.Sublist"
begin

section \<open>The banner server (server.py)\<close>

text \<open>
  The program is a single-process Tornado application. \<open>MainHandler.get\<close> is a
  coroutine without any suspension point, so each request runs from its first to its last
  statement before the next one starts: a request is one step on the application state.

  Python dictionaries keep their keys in insertion order and hold one entry per key; they
  are association lists here, read with \<open>map_of\<close> and written with \<open>AList.update\<close>
  (an existing key keeps its position, a new key goes to the end).
\<close>

subsection \<open>Exceptions and the application state\<close>

datatype error = IndexError | ValueError | KeyError

record application =
  banner_urls :: "string list"
  banner_shows :: "(string \<times> int) list"
  banner_categories :: "(string \<times> string list) list"
  last_banners :: "(string \<times> string) list"

text \<open>
  What a request brings: the values of the parameter \<open>category[]\<close> as
  \<open>get_request_categories\<close> returns them, and the address of the client. (Values that
  are not valid UTF-8 make \<open>decode\<close> raise before the application state is read; such a
  request is no step of the model.)
\<close>

record request =
  categories :: "string list"
  remote_ip :: string

record response =
  status :: nat
  body :: string

subsection \<open>The built-in \<open>int\<close> on a string\<close>

text \<open>
  \<open>int(s)\<close> in base ten, on ASCII text: surrounding whitespace is stripped (tab, line
  feed, vertical tab, form feed, carriage return and space; the separators 28 to 31 are
  not whitespace for \<open>int\<close> on an ASCII string), one sign is allowed, and the rest must
  be decimal digits, where a single underscore may stand between two digits. Anything else
  raises \<open>ValueError\<close> (the value \<open>None\<close> here). Digits and whitespace beyond ASCII,
  and the interpreter's optional limit on the number of digits, are left out.
\<close>

definition is_space :: "char \<Rightarrow> bool" where
  "is_space c = (let n = (of_char c :: nat) in (9 \<le> n \<and> n \<le> 13) \<or> n = 32)"

definition is_digit :: "char \<Rightarrow> bool" where
  "is_digit c = (let n = (of_char c :: nat) in 48 \<le> n \<and> n \<le> 57)"

definition digit_value :: "char \<Rightarrow> int" where
  "digit_value c = int (of_char c) - 48"

definition strip :: "string \<Rightarrow> string" where
  "strip s = rev (dropWhile is_space (rev (dropWhile is_space s)))"

fun digits_value :: "int \<Rightarrow> string \<Rightarrow> int option" where
  "digits_value acc [] = None"
| "digits_value acc [c] = (if is_digit c then Some (acc * 10 + digit_value c) else None)"
| "digits_value acc (c # d # ds) =
     (if \<not> is_digit c then None
      else if d = CHR ''_'' then digits_value (acc * 10 + digit_value c) ds
      else digits_value (acc * 10 + digit_value c) (d # ds))"

definition py_int :: "string \<Rightarrow> int option" where
  "py_int s =
     (case strip s of
        [] \<Rightarrow> None
      | c # cs \<Rightarrow>
          if c = CHR ''-'' then map_option uminus (digits_value 0 cs)
          else if c = CHR ''+'' then digits_value 0 cs
          else digits_value 0 (c # cs))"

subsection \<open>\<open>Application.__init__\<close> and \<open>Application.read_config\<close>\<close>

text \<open>
  \<open>banner_categories\<close> is a \<open>defaultdict(list)\<close>: reading a key that is absent
  stores the key with an empty list and returns that list.
\<close>

definition getitem_default ::
  "(string \<times> string list) list \<Rightarrow> string \<Rightarrow> string list \<times> (string \<times> string list) list" where
  "getitem_default m c =
     (case map_of m c of
        Some urls \<Rightarrow> (urls, m)
      | None \<Rightarrow> ([], m @ [(c, [])]))"

text \<open>\<open>self.banner_categories[category].append(url)\<close>\<close>

definition append_category ::
  "string \<Rightarrow> string \<Rightarrow> (string \<times> string list) list \<Rightarrow> (string \<times> string list) list" where
  "append_category url c m =
     (let (urls, m') = getitem_default m c in AList.update c (urls @ [url]) m')"

text \<open>
  The body of the loop over the rows of the CSV reader. A row is the list of its fields;
  \<open>row[0]\<close> and \<open>row[1]\<close> raise \<open>IndexError\<close> on a row that is too short.
\<close>

definition read_row :: "application \<Rightarrow> string list \<Rightarrow> error + application" where
  "read_row a row =
     (case row of
        [] \<Rightarrow> Inl IndexError
      | url # rest \<Rightarrow>
          (case rest of
             [] \<Rightarrow> Inl IndexError
           | field # cats \<Rightarrow>
               (case py_int field of
                  None \<Rightarrow> Inl ValueError
                | Some shows \<Rightarrow>
                    Inr (a\<lparr>banner_urls := banner_urls a @ [url],
                           banner_categories := fold (append_category url) cats (banner_categories a),
                           banner_shows := AList.update url shows (banner_shows a)\<rparr>))))"

fun read_rows :: "application \<Rightarrow> string list list \<Rightarrow> error + application" where
  "read_rows a [] = Inr a"
| "read_rows a (row # rows) =
     (case read_row a row of
        Inl e \<Rightarrow> Inl e
      | Inr a' \<Rightarrow> read_rows a' rows)"

definition empty_application :: application where
  "empty_application =
     \<lparr>banner_urls = [], banner_shows = [], banner_categories = [], last_banners = []\<rparr>"

text \<open>
  The constructor: an exception of \<open>read_config\<close> leaves it, and the process ends
  before it listens. The argument is the content of the configuration file as the CSV
  reader yields it.
\<close>

definition read_config :: "string list list \<Rightarrow> error + application" where
  "read_config rows = read_rows empty_application rows"

definition get_last_banner :: "application \<Rightarrow> string \<Rightarrow> string option" where
  "get_last_banner a ip = map_of (last_banners a) ip"

definition set_last_banner :: "application \<Rightarrow> string \<Rightarrow> string \<Rightarrow> application" where
  "set_last_banner a ip banner_url = a\<lparr>last_banners := AList.update ip banner_url (last_banners a)\<rparr>"

subsection \<open>\<open>MainHandler.get_available_banners_for_categories\<close>\<close>

text \<open>
  The nested comprehension of lines 50--51: the categories are read one after the other
  through the \<open>defaultdict\<close>, so the index may grow on the way.
\<close>

fun collect_banners ::
  "(string \<times> string list) list \<Rightarrow> string list \<Rightarrow> string list \<times> (string \<times> string list) list" where
  "collect_banners m [] = ([], m)"
| "collect_banners m (c # cs) =
     (let (urls, m1) = getitem_default m c;
          (more, m2) = collect_banners m1 cs
      in (urls @ more, m2))"

text \<open>
  \<open>list(set(xs))\<close>: the elements of \<open>xs\<close>, each once, in the order in which the
  interpreter iterates the set. That order follows the hashes of the strings, which change
  from process to process; \<open>h\<close> stands for it, and every order of the elements is the
  result for some \<open>h\<close>.
\<close>

definition list_of_set :: "(string \<Rightarrow> nat) \<Rightarrow> string list \<Rightarrow> string list" where
  "list_of_set h xs = sort_key h (remdups xs)"

text \<open>Lines 49--54: the banners of the requested categories, or all banners.\<close>

definition category_banners ::
  "application \<Rightarrow> string list \<Rightarrow> (string \<Rightarrow> nat) \<Rightarrow> string list \<times> application" where
  "category_banners a cats h =
     (if cats \<noteq> [] then
        (let (urls, m) = collect_banners (banner_categories a) cats
         in (list_of_set h urls, a\<lparr>banner_categories := m\<rparr>))
      else (banner_urls a, a))"

text \<open>
  Lines 57--58: the comprehension reads \<open>banner_shows[banner_url]\<close> for every
  candidate, in order; a missing key raises \<open>KeyError\<close>.
\<close>

fun positive_shows :: "(string \<times> int) list \<Rightarrow> string list \<Rightarrow> error + string list" where
  "positive_shows shows [] = Inr []"
| "positive_shows shows (u # us) =
     (case map_of shows u of
        None \<Rightarrow> Inl KeyError
      | Some n \<Rightarrow>
          (case positive_shows shows us of
             Inl e \<Rightarrow> Inl e
           | Inr rest \<Rightarrow> Inr (if 0 < n then u # rest else rest)))"

text \<open>Lines 49--58: the list that reaches the check of the last banner.\<close>

definition budget_banners ::
  "application \<Rightarrow> string list \<Rightarrow> (string \<Rightarrow> nat) \<Rightarrow> (error + string list) \<times> application" where
  "budget_banners a cats h =
     (let (candidates, a') = category_banners a cats h
      in (positive_shows (banner_shows a') candidates, a'))"

text \<open>
  Lines 61--64. \<open>if last_banner and ...\<close> tests the truth value of the entry: \<open>None\<close>
  and the empty string are both false. \<open>list.remove\<close> deletes the first occurrence.
\<close>

definition remove_last_banner :: "string option \<Rightarrow> string list \<Rightarrow> string list" where
  "remove_last_banner last_banner available_banners =
     (case last_banner of
        None \<Rightarrow> available_banners
      | Some l \<Rightarrow>
          if l \<noteq> [] \<and> l \<in> set available_banners then
            (if 1 < length available_banners then remove1 l available_banners
             else available_banners)
          else available_banners)"

definition get_available_banners_for_categories ::
  "application \<Rightarrow> string \<Rightarrow> string list \<Rightarrow> (string \<Rightarrow> nat) \<Rightarrow> (error + string list) \<times> application" where
  "get_available_banners_for_categories a ip cats h =
     (case budget_banners a cats h of
        (Inl e, a') \<Rightarrow> (Inl e, a')
      | (Inr available_banners, a') \<Rightarrow>
          (Inr (remove_last_banner (get_last_banner a' ip) available_banners), a'))"

subsection \<open>Choosing and serving\<close>

text \<open>
  \<open>random.randint(0, len(banners) - 1)\<close> raises \<open>ValueError\<close> on the empty range and
  otherwise returns any index of the list; \<open>r\<close> is the number the generator draws, taken
  modulo the length.
\<close>

definition choose_banner :: "string list \<Rightarrow> nat \<Rightarrow> error + string" where
  "choose_banner banners r =
     (if banners = [] then Inl ValueError else Inr (banners ! (r mod length banners)))"

definition banner_wrapper :: "string \<Rightarrow> string" where
  "banner_wrapper banner_url =
     banner_url @ ''<img src='' @ [CHR 0x22] @ banner_url @ [CHR 0x22] @ '' alt='' @ [CHR 0x22]
       @ ''Banner'' @ [CHR 0x22] @ ''>''"

text \<open>
  \<open>output_banner\<close> writes the page, lowers the count of the banner (a \<open>KeyError\<close>
  when it has none) and records it for the address. A handler that was not given a status
  answers 200.
\<close>

definition output_banner :: "application \<Rightarrow> string \<Rightarrow> string \<Rightarrow> (error + response) \<times> application" where
  "output_banner a ip banner_url =
     (case map_of (banner_shows a) banner_url of
        None \<Rightarrow> (Inl KeyError, a)
      | Some n \<Rightarrow>
          (Inr \<lparr>status = 200, body = banner_wrapper banner_url\<rparr>,
           set_last_banner (a\<lparr>banner_shows := AList.update banner_url (n - 1) (banner_shows a)\<rparr>)
             ip banner_url))"

definition banner_not_found :: response where
  "banner_not_found = \<lparr>status = 404, body = ''Not found''\<rparr>"

text \<open>
  \<open>MainHandler.get\<close>. An exception ends the request (Tornado answers it with an error
  page) and the changes made before it stay.
\<close>

definition handler_get ::
  "application \<Rightarrow> request \<Rightarrow> (string \<Rightarrow> nat) \<Rightarrow> nat \<Rightarrow> (error + response) \<times> application" where
  "handler_get a req h r =
     (case get_available_banners_for_categories a (remote_ip req) (categories req) h of
        (Inl e, a') \<Rightarrow> (Inl e, a')
      | (Inr available_banners, a') \<Rightarrow>
          if available_banners \<noteq> [] then
            (case choose_banner available_banners r of
               Inl e \<Rightarrow> (Inl e, a')
             | Inr target_banner \<Rightarrow> output_banner a' (remote_ip req) target_banner)
          else (Inr banner_not_found, a'))"

text \<open>The server: the requests one after the other, each with its set order and its draw.\<close>

fun serve ::
  "application \<Rightarrow> (request \<times> (string \<Rightarrow> nat) \<times> nat) list \<Rightarrow> (error + response) list \<times> application" where
  "serve a [] = ([], a)"
| "serve a ((req, h, r) # reqs) =
     (let (res, a1) = handler_get a req h r;
          (more, a2) = serve a1 reqs
      in (res # more, a2))"

subsection \<open>Notions of the statements\<close>

text \<open>The banners registered under a category: what a read of the index returns.\<close>

definition registered :: "(string \<times> string list) list \<Rightarrow> string \<Rightarrow> string list" where
  "registered m c = (case map_of m c of None \<Rightarrow> [] | Some urls \<Rightarrow> urls)"

text \<open>
  The category candidate set in the words of the specification: with requested categories,
  the union of the banners registered under each of them; without, all banners of the list.
  The code computes it as \<open>category_banners\<close>.
\<close>

definition candidates :: "application \<Rightarrow> string list \<Rightarrow> string set" where
  "candidates a cats =
     (if cats \<noteq> [] then (\<Union>c\<in>set cats. set (registered (banner_categories a) c))
      else set (banner_urls a))"

definition positive :: "application \<Rightarrow> string \<Rightarrow> bool" where
  "positive a u = (case map_of (banner_shows a) u of None \<Rightarrow> False | Some n \<Rightarrow> 0 < n)"

text \<open>The answer that shows banner \<open>u\<close>, and how often a run gave it.\<close>

definition served :: "string \<Rightarrow> error + response" where
  "served u = Inr \<lparr>status = 200, body = banner_wrapper u\<rparr>"

definition selections :: "string \<Rightarrow> (error + response) list \<Rightarrow> nat" where
  "selections u resps = length (filter (\<lambda>res. res = served u) resps)"

text \<open>Every banner of the list and of the index has a count.\<close>

definition consistent :: "application \<Rightarrow> bool" where
  "consistent a \<longleftrightarrow>
     set (banner_urls a) \<subseteq> fst ` set (banner_shows a) \<and>
     (\<forall>c. set (registered (banner_categories a) c) \<subseteq> fst ` set (banner_shows a))"

text \<open>The states of a running server: the loaded one, and those that requests lead to.\<close>

inductive reachable :: "application \<Rightarrow> bool" where
  start: "read_config rows = Inr a \<Longrightarrow> reachable a"
| step: "reachable a \<Longrightarrow> handler_get a req h r = (res, a') \<Longrightarrow> reachable a'"

section \<open>Properties\<close>

subsection \<open>The category index\<close>


lemma fst_getitem_default: "fst (getitem_default m c) = registered m c"
  by (simp add: getitem_default_def registered_def split: option.splits)

lemma registered_getitem_default: "registered (snd (getitem_default m c)) k = registered m k"
  by (auto simp: getitem_default_def registered_def map_add_def split: option.splits)

lemma registered_append_category:
  "registered (append_category url c m) k = (if k = c then registered m k @ [url] else registered m k)"
proof -
  obtain urls m' where g: "getitem_default m c = (urls, m')"
    by (cases "getitem_default m c")
  have u: "urls = registered m c"
    using fst_getitem_default [of m c] g by simp
  have r: "registered m' k = registered m k"
    using registered_getitem_default [of m c k] g by simp
  have "registered (AList.update c (urls @ [url]) m') k =
      (if k = c then urls @ [url] else registered m' k)"
    by (simp add: registered_def update_conv')
  then show ?thesis
    by (simp add: append_category_def g u r)
qed

lemma registered_fold_append_category:
  "registered (fold (append_category url) cats m) k =
     registered m k @ replicate (count_list cats k) url"
  by (induction cats arbitrary: m) (auto simp: registered_append_category replicate_app_Cons_same)

subsection \<open>The integer reader on some fields\<close>

text \<open>
  Signs, underscores and blanks as \<open>int\<close> reads them; the separators 28 and 31 are no
  blanks.
\<close>

lemma py_int_examples:
  "py_int ''5'' = Some 5 \<and> py_int ''-5'' = Some (- 5) \<and> py_int ''+5'' = Some 5 \<and>
   py_int '' 5 '' = Some 5 \<and> py_int [CHR 0x09, CHR ''5'', CHR 0x0A] = Some 5 \<and>
   py_int ''1_000'' = Some 1000 \<and> py_int ''007'' = Some 7 \<and>
   py_int [] = None \<and> py_int ''+'' = None \<and> py_int ''- 5'' = None \<and>
   py_int ''_1'' = None \<and> py_int ''1_'' = None \<and> py_int ''1__0'' = None \<and>
   py_int ''5 5'' = None \<and> py_int ''1e3'' = None \<and> py_int ''0x1'' = None \<and>
   py_int [CHR 0x1C, CHR ''5''] = None \<and> py_int [CHR ''5'', CHR 0x1F] = None"
  by code_simp

subsection \<open>Loading keeps the counts complete\<close>

lemma read_row_consistent:
  assumes "consistent a" and "read_row a row = Inr a'"
  shows "consistent a'"
proof -
  from assms(2) obtain url field cats n where
    row: "row = url # field # cats" and n: "py_int field = Some n" and
    a': "a' = a\<lparr>banner_urls := banner_urls a @ [url],
               banner_categories := fold (append_category url) cats (banner_categories a),
               banner_shows := AList.update url n (banner_shows a)\<rparr>"
    by (auto simp: read_row_def split: list.splits option.splits)
  have keys: "fst ` set (banner_shows a') = insert url (fst ` set (banner_shows a))"
    by (simp add: a' dom_update)
  have "set (banner_urls a') \<subseteq> fst ` set (banner_shows a')"
    using assms(1) unfolding keys by (auto simp: a' consistent_def)
  moreover have "set (registered (banner_categories a') c) \<subseteq> fst ` set (banner_shows a')" for c
    using assms(1) unfolding keys
    by (auto simp: a' consistent_def registered_fold_append_category)
  ultimately show ?thesis
    by (simp add: consistent_def)
qed

lemma read_rows_consistent:
  "consistent a \<Longrightarrow> read_rows a rows = Inr a' \<Longrightarrow> consistent a'"
proof (induction rows arbitrary: a)
  case Nil
  then show ?case by simp
next
  case (Cons row rows)
  then show ?case
    by (auto split: sum.splits dest: read_row_consistent)
qed

lemma read_config_consistent: "read_config rows = Inr a \<Longrightarrow> consistent a"
  unfolding read_config_def
  by (rule read_rows_consistent [of empty_application])
     (simp_all add: consistent_def empty_application_def registered_def)

subsection \<open>The candidates\<close>

lemma collect_banners_fst: "fst (collect_banners m cs) = concat (map (registered m) cs)"
proof (induction cs arbitrary: m)
  case Nil
  then show ?case by simp
next
  case (Cons c cs)
  obtain urls m1 where g: "getitem_default m c = (urls, m1)"
    by (cases "getitem_default m c")
  have "urls = registered m c" and "registered m1 = registered m"
    using fst_getitem_default [of m c] registered_getitem_default [of m c] g by auto
  with Cons.IH [of m1] g show ?case
    by (simp add: split_beta)
qed

lemma collect_banners_registered: "registered (snd (collect_banners m cs)) k = registered m k"
proof (induction cs arbitrary: m)
  case Nil
  then show ?case by simp
next
  case (Cons c cs)
  obtain urls m1 where g: "getitem_default m c = (urls, m1)"
    by (cases "getitem_default m c")
  have "registered m1 k = registered m k"
    using registered_getitem_default [of m c k] g by simp
  with Cons.IH [of m1] g show ?case
    by (simp add: split_beta)
qed

lemma collect_banners_index:
  "\<exists>new. snd (collect_banners m cs) = m @ map (\<lambda>c. (c, [])) new \<and> distinct new \<and>
     set new = set cs - fst ` set m"
proof (induction cs arbitrary: m)
  case Nil
  then show ?case by simp
next
  case (Cons c cs)
  show ?case
  proof (cases "map_of m c")
    case None
    then have c: "c \<notin> fst ` set m"
      by (simp add: map_of_eq_None_iff)
    from Cons.IH [of "m @ [(c, [])]"] obtain new where
      new: "snd (collect_banners (m @ [(c, [])]) cs) = (m @ [(c, [])]) @ map (\<lambda>c. (c, [])) new"
        "distinct new" "set new = set cs - fst ` set (m @ [(c, [])])"
      by blast
    have "snd (collect_banners m (c # cs)) = m @ map (\<lambda>c. (c, [])) (c # new)"
      using None new(1) by (simp add: getitem_default_def split_beta)
    moreover have "distinct (c # new)"
      using new(2,3) by auto
    moreover have "set (c # new) = set (c # cs) - fst ` set m"
      using new(3) c by auto
    ultimately show ?thesis by blast
  next
    case (Some urls)
    then have c: "c \<in> fst ` set m"
      by (metis map_of_eq_None_iff option.distinct(1))
    from Cons.IH [of m] obtain new where
      new: "snd (collect_banners m cs) = m @ map (\<lambda>c. (c, [])) new"
        "distinct new" "set new = set cs - fst ` set m"
      by blast
    have "snd (collect_banners m (c # cs)) = m @ map (\<lambda>c. (c, [])) new"
      using Some new(1) by (simp add: getitem_default_def split_beta)
    moreover have "set new = set (c # cs) - fst ` set m"
      using new(3) c by auto
    ultimately show ?thesis using new(2) by blast
  qed
qed

lemma set_list_of_set: "set (list_of_set h xs) = set xs"
  by (simp add: list_of_set_def)

lemma distinct_list_of_set: "distinct (list_of_set h xs)"
  by (simp add: list_of_set_def)

lemma category_banners_set: "set (fst (category_banners a cats h)) = candidates a cats"
  by (simp add: category_banners_def candidates_def split_beta set_list_of_set
      collect_banners_fst)

lemma category_banners_distinct: "cats \<noteq> [] \<Longrightarrow> distinct (fst (category_banners a cats h))"
  by (simp add: category_banners_def split_beta distinct_list_of_set)

lemma category_banners_frame:
  "banner_urls (snd (category_banners a cats h)) = banner_urls a"
  "banner_shows (snd (category_banners a cats h)) = banner_shows a"
  "last_banners (snd (category_banners a cats h)) = last_banners a"
  "registered (banner_categories (snd (category_banners a cats h))) k =
     registered (banner_categories a) k"
  by (simp_all add: category_banners_def split_beta collect_banners_registered)

lemma candidates_have_counts: "consistent a \<Longrightarrow> candidates a cats \<subseteq> fst ` set (banner_shows a)"
  by (auto simp: consistent_def candidates_def)

lemma positive_shows_filter:
  "set us \<subseteq> fst ` set (banner_shows a) \<Longrightarrow>
     positive_shows (banner_shows a) us = Inr (filter (positive a) us)"
proof (induction us)
  case Nil
  then show ?case by simp
next
  case (Cons u us)
  then obtain n where "map_of (banner_shows a) u = Some n"
    by (cases "map_of (banner_shows a) u") (auto simp: map_of_eq_None_iff)
  with Cons show ?case
    by (simp add: positive_def)
qed

lemma budget_banners_consistent:
  assumes "consistent a"
  shows "budget_banners a cats h =
     (Inr (filter (positive a) (fst (category_banners a cats h))), snd (category_banners a cats h))"
proof -
  have "set (fst (category_banners a cats h)) \<subseteq> fst ` set (banner_shows a)"
    using candidates_have_counts [OF assms] by (simp add: category_banners_set)
  then show ?thesis
    using positive_shows_filter [of "fst (category_banners a cats h)" a]
    by (simp add: budget_banners_def split_beta category_banners_frame)
qed

lemma read_row_Inl_iff:
  "(\<exists>e. read_row a row = Inl e) \<longleftrightarrow> length row < 2 \<or> py_int (row ! 1) = None"
  by (auto simp: read_row_def split: list.splits option.splits)

lemma read_rows_Inl_iff:
  "(\<exists>e. read_rows a rows = Inl e) \<longleftrightarrow> (\<exists>row\<in>set rows. length row < 2 \<or> py_int (row ! 1) = None)"
proof (induction rows arbitrary: a)
  case Nil
  then show ?case by simp
next
  case (Cons row rows)
  show ?case
  proof (cases "read_row a row")
    case (Inl e)
    then have "length row < 2 \<or> py_int (row ! 1) = None"
      using read_row_Inl_iff [of a row] by auto
    with Inl show ?thesis by auto
  next
    case (Inr a')
    then have "\<not> (length row < 2 \<or> py_int (row ! 1) = None)"
      using read_row_Inl_iff [of a row] by auto
    with Inr Cons.IH [of a'] show ?thesis by auto
  qed
qed

subsection \<open>One request\<close>

lemma remove_last_banner_subset: "set (remove_last_banner l av) \<subseteq> set av"
  using set_remove1_subset [of _ av]
  by (auto simp: remove_last_banner_def split: option.splits)

lemma remove_last_banner_Nil_iff: "remove_last_banner l av = [] \<longleftrightarrow> av = []"
proof (cases av)
  case Nil
  then show ?thesis by (simp add: remove_last_banner_def split: option.splits)
next
  case (Cons x xs)
  have "length (remove1 k av) \<noteq> 0" if "1 < length av" for k
    using that by (cases "k \<in> set av") (auto simp: length_remove1 remove1_idem)
  then show ?thesis
    using Cons by (auto simp: remove_last_banner_def split: option.splits)
qed

lemma remove_last_banner_excludes:
  assumes "distinct av" and "l \<noteq> []" and "l \<in> set av" and "1 < length av"
  shows "l \<notin> set (remove_last_banner (Some l) av)"
  using assms by (simp add: remove_last_banner_def)

lemma get_available_consistent:
  assumes "consistent a"
  shows "get_available_banners_for_categories a ip cats h =
     (Inr (remove_last_banner (get_last_banner a ip)
            (filter (positive a) (fst (category_banners a cats h)))),
      snd (category_banners a cats h))"
  by (simp add: get_available_banners_for_categories_def budget_banners_consistent [OF assms]
      get_last_banner_def category_banners_frame)

lemma output_banner_positive:
  assumes "map_of (banner_shows a) u = Some n"
  shows "output_banner a ip u =
     (served u,
      a\<lparr>banner_shows := AList.update u (n - 1) (banner_shows a),
        last_banners := AList.update ip u (last_banners a)\<rparr>)"
  using assms by (simp add: output_banner_def served_def set_last_banner_def)

text \<open>One request on a consistent state: not found and nothing written, or one banner
  with a positive count served and counted.\<close>

lemma handler_get_step:
  assumes "consistent a" and "handler_get a req h r = (res, a')"
  defines "a1 \<equiv> snd (category_banners a (categories req) h)"
  defines "av \<equiv> remove_last_banner (get_last_banner a (remote_ip req))
      (filter (positive a) (fst (category_banners a (categories req) h)))"
  shows "(av = [] \<and> res = Inr banner_not_found \<and> a' = a1) \<or>
     (\<exists>u n. u \<in> set av \<and> map_of (banner_shows a) u = Some n \<and> 0 < n \<and> res = served u \<and>
        a' = a1\<lparr>banner_shows := AList.update u (n - 1) (banner_shows a),
                last_banners := AList.update (remote_ip req) u (last_banners a)\<rparr>)"
proof (cases "av = []")
  case True
  then show ?thesis
    using assms(2) by (simp add: handler_get_def get_available_consistent [OF assms(1)] av_def a1_def)
next
  case False
  define u where "u = av ! (r mod length av)"
  have u: "u \<in> set av"
    using False by (simp add: u_def)
  then have "u \<in> set (filter (positive a) (fst (category_banners a (categories req) h)))"
    using remove_last_banner_subset av_def by blast
  then have "positive a u" by simp
  then obtain n where n: "map_of (banner_shows a) u = Some n" "0 < n"
    by (auto simp: positive_def split: option.splits)
  have frame: "banner_shows a1 = banner_shows a" "last_banners a1 = last_banners a"
    by (simp_all add: a1_def category_banners_frame)
  have "map_of (banner_shows a1) u = Some n"
    using n by (simp add: frame)
  from output_banner_positive [OF this, of "remote_ip req"]
  have out: "output_banner a1 (remote_ip req) u =
      (served u, a1\<lparr>banner_shows := AList.update u (n - 1) (banner_shows a),
                last_banners := AList.update (remote_ip req) u (last_banners a)\<rparr>)"
    by (simp add: frame)
  have "handler_get a req h r = output_banner a1 (remote_ip req) u"
    using False
    by (simp add: handler_get_def get_available_consistent [OF assms(1)] choose_banner_def
        flip: av_def a1_def u_def)
  with out assms(2) u n show ?thesis by auto
qed

lemma handler_get_consistent:
  assumes "consistent a" and "handler_get a req h r = (res, a')"
  shows "consistent a'"
proof -
  from handler_get_step [OF assms] consider
    "a' = snd (category_banners a (categories req) h)"
    | u n where "map_of (banner_shows a) u = Some n"
        "a' = (snd (category_banners a (categories req) h))
            \<lparr>banner_shows := AList.update u (n - 1) (banner_shows a),
             last_banners := AList.update (remote_ip req) u (last_banners a)\<rparr>"
    by blast
  then show ?thesis
  proof cases
    case 1
    then show ?thesis
      using assms(1) by (simp add: consistent_def category_banners_frame)
  next
    case 2
    then have "u \<in> fst ` set (banner_shows a)"
      by (metis map_of_eq_None_iff option.distinct(1))
    then have "fst ` set (AList.update u (n - 1) (banner_shows a)) = fst ` set (banner_shows a)"
      by (auto simp: dom_update)
    then show ?thesis
      using assms(1) 2 by (simp add: consistent_def category_banners_frame)
  qed
qed

lemma reachable_consistent: "reachable a \<Longrightarrow> consistent a"
  by (induction rule: reachable.induct)
     (auto intro: read_config_consistent handler_get_consistent)

lemma serve_consistent: "consistent a \<Longrightarrow> serve a reqs = (resps, a') \<Longrightarrow> consistent a'"
proof (induction reqs arbitrary: a resps a')
  case Nil
  then show ?case by simp
next
  case (Cons q reqs)
  obtain req h r where q: "q = (req, h, r)" by (cases q)
  obtain res a1 where g: "handler_get a req h r = (res, a1)" by (cases "handler_get a req h r")
  obtain more a2 where s: "serve a1 reqs = (more, a2)" by (cases "serve a1 reqs")
  have "consistent a1" using handler_get_consistent [OF Cons.prems(1) g] .
  from Cons.IH [OF this s] Cons.prems(2) show ?case
    by (simp add: q g s)
qed

lemma serve_reachable: "reachable a \<Longrightarrow> serve a reqs = (resps, a') \<Longrightarrow> reachable a'"
proof (induction reqs arbitrary: a resps a')
  case Nil
  then show ?case by simp
next
  case (Cons q reqs)
  obtain req h r where q: "q = (req, h, r)" by (cases q)
  obtain res a1 where g: "handler_get a req h r = (res, a1)" by (cases "handler_get a req h r")
  obtain more a2 where s: "serve a1 reqs = (more, a2)" by (cases "serve a1 reqs")
  have "reachable a1" using reachable.step [OF Cons.prems(1) g] .
  from Cons.IH [OF this s] Cons.prems(2) show ?case
    by (simp add: q g s)
qed

subsection \<open>Counting what is served\<close>

lemma banner_wrapper_length: "length (banner_wrapper url) = 2 * length url + 25"
  by (simp add: banner_wrapper_def)

lemma banner_wrapper_inj: "banner_wrapper u = banner_wrapper v \<Longrightarrow> u = v"
proof -
  assume eq: "banner_wrapper u = banner_wrapper v"
  then have "length (banner_wrapper u) = length (banner_wrapper v)" by simp
  then have "length u = length v" by (simp add: banner_wrapper_length)
  with eq show "u = v" by (simp add: banner_wrapper_def)
qed

lemma served_inj: "served u = served v \<longleftrightarrow> u = v"
  by (auto simp: served_def dest: banner_wrapper_inj)

lemma served_not_found: "served u \<noteq> Inr banner_not_found"
  by (simp add: served_def banner_not_found_def)

lemma handler_get_count:
  assumes "consistent a" and "handler_get a req h r = (res, a')"
    and "map_of (banner_shows a) x = Some n"
  shows "map_of (banner_shows a') x = Some (if res = served x then n - 1 else n) \<and>
     (res = served x \<longrightarrow> 0 < n)"
proof -
  from handler_get_step [OF assms(1,2)] consider
    "res = Inr banner_not_found" "a' = snd (category_banners a (categories req) h)"
    | u m where "map_of (banner_shows a) u = Some m" "0 < m" "res = served u"
        "a' = (snd (category_banners a (categories req) h))
            \<lparr>banner_shows := AList.update u (m - 1) (banner_shows a),
             last_banners := AList.update (remote_ip req) u (last_banners a)\<rparr>"
    by blast
  then show ?thesis
  proof cases
    case 1
    then show ?thesis
      using assms(3) served_not_found [of x] by (auto simp: category_banners_frame)
  next
    case 2
    then show ?thesis
      using assms(3) by (auto simp: update_conv' served_inj)
  qed
qed

lemma serve_count:
  "consistent a \<Longrightarrow> serve a reqs = (resps, a') \<Longrightarrow> map_of (banner_shows a) x = Some n \<Longrightarrow>
     map_of (banner_shows a') x = Some (n - int (selections x resps))"
proof (induction reqs arbitrary: a resps a' n)
  case Nil
  then show ?case by (simp add: selections_def)
next
  case (Cons q reqs)
  obtain req h r where q: "q = (req, h, r)" by (cases q)
  obtain res a1 where g: "handler_get a req h r = (res, a1)" by (cases "handler_get a req h r")
  obtain more a2 where s: "serve a1 reqs = (more, a2)" by (cases "serve a1 reqs")
  have c1: "consistent a1" using handler_get_consistent [OF Cons.prems(1) g] .
  have n1: "map_of (banner_shows a1) x = Some (if res = served x then n - 1 else n)"
    using handler_get_count [OF Cons.prems(1) g Cons.prems(3)] by simp
  have "map_of (banner_shows a2) x =
      Some ((if res = served x then n - 1 else n) - int (selections x more))"
    using Cons.IH [OF c1 s n1] .
  moreover have "resps = res # more" and "a' = a2"
    using Cons.prems(2) by (simp_all add: q g s)
  ultimately show ?case
    by (simp add: selections_def)
qed

lemma handler_get_nonneg:
  assumes "consistent a" and "handler_get a req h r = (res, a')"
    and "map_of (banner_shows a) x = Some n" and "0 \<le> n"
  shows "\<exists>n'. map_of (banner_shows a') x = Some n' \<and> 0 \<le> n'"
  using handler_get_count [OF assms(1,2,3)] assms(4) by (cases "res = served x") auto

lemma serve_nonneg:
  "consistent a \<Longrightarrow> serve a reqs = (resps, a') \<Longrightarrow> map_of (banner_shows a) x = Some n \<Longrightarrow>
     0 \<le> n \<Longrightarrow> \<exists>n'. map_of (banner_shows a') x = Some n' \<and> 0 \<le> n'"
proof (induction reqs arbitrary: a resps a' n)
  case Nil
  then show ?case by simp
next
  case (Cons q reqs)
  obtain req h r where q: "q = (req, h, r)" by (cases q)
  obtain res a1 where g: "handler_get a req h r = (res, a1)" by (cases "handler_get a req h r")
  obtain more a2 where s: "serve a1 reqs = (more, a2)" by (cases "serve a1 reqs")
  have c1: "consistent a1" using handler_get_consistent [OF Cons.prems(1) g] .
  obtain n1 where n1: "map_of (banner_shows a1) x = Some n1" "0 \<le> n1"
    using handler_get_nonneg [OF Cons.prems(1) g Cons.prems(3,4)] by blast
  have "a' = a2"
    using Cons.prems(2) by (simp add: q g s)
  with Cons.IH [OF c1 s n1] show ?case by simp
qed

subsection \<open>Requests without an eligible banner\<close>

lemma exhausted_not_available:
  assumes "consistent a" and "\<not> positive a x"
  shows "\<exists>av a'. get_available_banners_for_categories a ip cats h = (Inr av, a') \<and> x \<notin> set av"
proof -
  have "x \<notin> set (filter (positive a) (fst (category_banners a cats h)))"
    using assms(2) by simp
  then have "x \<notin> set (remove_last_banner (get_last_banner a ip)
      (filter (positive a) (fst (category_banners a cats h))))"
    using remove_last_banner_subset by blast
  then show ?thesis
    by (simp add: get_available_consistent [OF assms(1)])
qed

lemma no_positive_candidate_not_found:
  assumes "consistent a" and "\<forall>u\<in>candidates a (categories req). \<not> positive a u"
  shows "get_available_banners_for_categories a (remote_ip req) (categories req) h =
      (Inr [], snd (category_banners a (categories req) h))"
proof -
  have "filter (positive a) (fst (category_banners a (categories req) h)) = []"
    using assms(2) by (simp add: filter_empty_conv category_banners_set)
  then show ?thesis
    by (simp add: get_available_consistent [OF assms(1)] remove_last_banner_Nil_iff)
qed

lemma empty_available_not_found:
  assumes "fst (get_available_banners_for_categories a (remote_ip req) (categories req) h) = Inr []"
  shows "\<exists>a'. handler_get a req h r = (Inr banner_not_found, a') \<and>
     banner_shows a' = banner_shows a \<and> last_banners a' = last_banners a"
proof -
  obtain res a1 where b: "budget_banners a (categories req) h = (res, a1)"
    by (cases "budget_banners a (categories req) h")
  have a1: "a1 = snd (category_banners a (categories req) h)"
    using b by (simp add: budget_banners_def split_beta)
  from assms b obtain av where "res = Inr av"
    "get_available_banners_for_categories a (remote_ip req) (categories req) h = (Inr [], a1)"
    by (cases res) (auto simp: get_available_banners_for_categories_def)
  then show ?thesis
    by (simp add: handler_get_def a1 category_banners_frame)
qed

subsection \<open>What a request leaves of the inventory\<close>

lemma handler_get_inventory:
  "banner_urls (snd (handler_get a req h r)) = banner_urls a \<and>
   banner_categories (snd (handler_get a req h r)) =
     banner_categories (snd (category_banners a (categories req) h))"
proof -
  obtain res a1 where b: "budget_banners a (categories req) h = (res, a1)"
    by (cases "budget_banners a (categories req) h")
  have a1: "a1 = snd (category_banners a (categories req) h)"
    using b by (simp add: budget_banners_def split_beta)
  have out: "banner_urls (snd (output_banner a1 ip u)) = banner_urls a1 \<and>
      banner_categories (snd (output_banner a1 ip u)) = banner_categories a1" for ip u
    by (simp add: output_banner_def set_last_banner_def split: option.splits)
  have "banner_urls (snd (handler_get a req h r)) = banner_urls a1 \<and>
      banner_categories (snd (handler_get a req h r)) = banner_categories a1"
    using out
    by (cases res)
       (simp_all add: handler_get_def get_available_banners_for_categories_def b
          split: sum.splits)
  then show ?thesis
    by (simp add: a1 category_banners_frame)
qed

lemma handler_get_index:
  "\<exists>new. banner_categories (snd (handler_get a req h r)) =
            banner_categories a @ map (\<lambda>c. (c, [])) new \<and>
          distinct new \<and>
          set new = set (categories req) - fst ` set (banner_categories a)"
proof -
  have idx: "banner_categories (snd (category_banners a (categories req) h)) =
      snd (collect_banners (banner_categories a) (categories req))"
    by (cases "categories req") (simp_all add: category_banners_def split_beta)
  from collect_banners_index [of "banner_categories a" "categories req"]
  show ?thesis
    by (simp add: handler_get_inventory idx)
qed

subsection \<open>What loading builds\<close>

lemma read_row_InrE:
  assumes "read_row a row = Inr a'"
  obtains url field cats n where "row = url # field # cats" and "py_int field = Some n"
    and "a' = a\<lparr>banner_urls := banner_urls a @ [url],
               banner_categories := fold (append_category url) cats (banner_categories a),
               banner_shows := AList.update url n (banner_shows a)\<rparr>"
  using assms by (auto simp: read_row_def split: list.splits option.splits)

lemma read_rows_urls: "read_rows a rows = Inr a' \<Longrightarrow> banner_urls a' = banner_urls a @ map hd rows"
proof (induction rows arbitrary: a)
  case Nil
  then show ?case by simp
next
  case (Cons row rows)
  from Cons.prems obtain a1 where a1: "read_row a row = Inr a1" "read_rows a1 rows = Inr a'"
    by (auto split: sum.splits)
  from a1(1) have "banner_urls a1 = banner_urls a @ [hd row]"
    by (auto elim: read_row_InrE)
  with Cons.IH [OF a1(2)] show ?case by simp
qed

lemma read_rows_distinct:
  "read_rows a rows = Inr a' \<Longrightarrow> distinct (map fst (banner_shows a)) \<Longrightarrow>
     distinct (map fst (banner_shows a'))"
proof (induction rows arbitrary: a)
  case Nil
  then show ?case by simp
next
  case (Cons row rows)
  from Cons.prems(1) obtain a1 where a1: "read_row a row = Inr a1" "read_rows a1 rows = Inr a'"
    by (auto split: sum.splits)
  from a1(1) Cons.prems(2) have "distinct (map fst (banner_shows a1))"
    by (auto elim!: read_row_InrE simp: distinct_update)
  with Cons.IH [OF a1(2)] show ?case by simp
qed

lemma read_rows_shows:
  "read_rows a rows = Inr a' \<Longrightarrow>
     map_of (banner_shows a') url =
       (if filter (\<lambda>row. hd row = url) rows = [] then map_of (banner_shows a) url
        else py_int (last (filter (\<lambda>row. hd row = url) rows) ! 1))"
proof (induction rows arbitrary: a)
  case Nil
  then show ?case by simp
next
  case (Cons row rows)
  from Cons.prems obtain a1 where a1: "read_row a row = Inr a1" "read_rows a1 rows = Inr a'"
    by (auto split: sum.splits)
  from a1(1) have "map_of (banner_shows a1) url =
      (if hd row = url then py_int (row ! 1) else map_of (banner_shows a) url)"
    by (auto elim!: read_row_InrE simp: update_conv')
  with Cons.IH [OF a1(2)] show ?case by simp
qed

lemma read_rows_registered:
  "read_rows a rows = Inr a' \<Longrightarrow>
     registered (banner_categories a') c =
       registered (banner_categories a) c @
       concat (map (\<lambda>row. replicate (count_list (drop 2 row) c) (hd row)) rows)"
proof (induction rows arbitrary: a)
  case Nil
  then show ?case by simp
next
  case (Cons row rows)
  from Cons.prems obtain a1 where a1: "read_row a row = Inr a1" "read_rows a1 rows = Inr a'"
    by (auto split: sum.splits)
  from a1(1) have "registered (banner_categories a1) c =
      registered (banner_categories a) c @ replicate (count_list (drop 2 row) c) (hd row)"
    by (auto elim!: read_row_InrE simp: registered_fold_append_category)
  with Cons.IH [OF a1(2)] show ?case by simp
qed

lemma single_entry:
  "distinct (map fst al) \<Longrightarrow> map_of al k = Some v \<Longrightarrow> filter (\<lambda>p. fst p = k) al = [(k, v)]"
proof (induction al)
  case Nil
  then show ?case by simp
next
  case (Cons p al)
  show ?case
  proof (cases "fst p = k")
    case True
    then have "k \<notin> fst ` set al" using Cons.prems(1) by auto
    then have "filter (\<lambda>p. fst p = k) al = []"
      by (auto simp: filter_empty_conv)
    with True Cons.prems(2) show ?thesis by (cases p) auto
  next
    case False
    with Cons show ?thesis by auto
  qed
qed

lemma count_list_map_hd: "count_list (map hd rows) url = length (filter (\<lambda>row. hd row = url) rows)"
  by (induction rows) auto

subsection \<open>The rule of the last banner\<close>

text \<open>
  When the eligible banners are pairwise different and the last banner of the client is a
  non-empty string, the rule works: the last banner is the answer only if it is the only
  eligible one.
\<close>

lemma last_banner_not_repeated:
  assumes "reachable a" and "get_last_banner a ip = Some l" and "l \<noteq> []"
    and "cats \<noteq> [] \<or> distinct (banner_urls a)"
    and "get_available_banners_for_categories a ip cats h = (Inr av, a1)"
    and "positive a l" and "l \<in> candidates a cats"
  shows "(av = [l] \<and> (\<forall>u\<in>candidates a cats. positive a u \<longrightarrow> u = l)) \<or>
         (l \<notin> set av \<and> av \<noteq> [] \<and> (\<exists>u\<in>candidates a cats. positive a u \<and> u \<noteq> l))"
proof -
  let ?el = "filter (positive a) (fst (category_banners a cats h))"
  have c: "consistent a" using reachable_consistent [OF assms(1)] .
  have av: "av = remove_last_banner (Some l) ?el"
    using assms(5) get_available_consistent [OF c, of ip cats h] assms(2) by simp
  have d: "distinct ?el"
  proof (cases "cats = []")
    case True
    then show ?thesis using assms(4) by (simp add: category_banners_def)
  next
    case False
    then show ?thesis using category_banners_distinct by simp
  qed
  have l: "l \<in> set ?el"
    using assms(6,7) by (simp add: category_banners_set)
  have el: "set ?el = {u \<in> candidates a cats. positive a u}"
    by (auto simp: category_banners_set)
  show ?thesis
  proof (cases "1 < length ?el")
    case True
    then have "l \<notin> set av"
      using remove_last_banner_excludes [OF d assms(3) l] av by simp
    moreover have "?el \<noteq> []"
      using l by (metis empty_iff list.set(1))
    then have "av \<noteq> []"
      unfolding av by (simp only: remove_last_banner_Nil_iff not_False_eq_True)
    moreover have "\<exists>u\<in>set ?el. u \<noteq> l"
    proof (rule ccontr)
      assume "\<not> (\<exists>u\<in>set ?el. u \<noteq> l)"
      then have "set ?el \<subseteq> {l}" by auto
      then have "card (set ?el) \<le> 1"
        by (metis card_mono finite.emptyI finite.insertI card_1_singleton_iff One_nat_def
            is_singletonI is_singleton_altdef)
      then show False using True distinct_card [OF d] by simp
    qed
    ultimately show ?thesis using el by auto
  next
    case False
    then have one: "?el = [l]"
      using l by (cases ?el) auto
    then have "av = [l]"
      using av assms(3) by (simp add: remove_last_banner_def)
    moreover have "\<forall>u\<in>candidates a cats. positive a u \<longrightarrow> u = l"
      using el one by auto
    ultimately show ?thesis by blast
  qed
qed

text \<open>
  An identifier that is the empty string is never taken out, because the test of
  line 62 reads it as false: the client that was shown it last still has it among its
  available banners, next to another one.
\<close>

lemma repeated_banner_with_empty_identifier:
  "read_config [['''', ''5'', ''x''], [''b.png'', ''5'', ''x'']] =
     Inr \<lparr>banner_urls = ['''', ''b.png''],
          banner_shows = [('''', 5), (''b.png'', 5)],
          banner_categories = [(''x'', ['''', ''b.png''])], last_banners = []\<rparr> \<and>
   get_available_banners_for_categories \<lparr>banner_urls = ['''', ''b.png''],
          banner_shows = [('''', 4), (''b.png'', 5)],
          banner_categories = [(''x'', ['''', ''b.png''])], last_banners = [(''10.0.0.1'', '''')]\<rparr>
       ''10.0.0.1'' [''x''] length =
     (Inr ['''', ''b.png''],
      \<lparr>banner_urls = ['''', ''b.png''],
          banner_shows = [('''', 4), (''b.png'', 5)],
          banner_categories = [(''x'', ['''', ''b.png''])], last_banners = [(''10.0.0.1'', '''')]\<rparr>)"
  by code_simp

section \<open>The claims\<close>

text \<open>
  C1: in every state of a running server, the list that reaches the check of the last
  banner holds exactly the candidates with a count above zero, where the candidates are the
  banners registered under the requested categories (each once) or, without a requested
  category, all banners of the list. No banner in it has a count of zero or less.
\<close>

theorem budget_eligible_set:
  assumes "reachable a"
  shows "\<exists>avail a'.
     budget_banners a cats h = (Inr avail, a') \<and>
     get_available_banners_for_categories a ip cats h =
       (Inr (remove_last_banner (get_last_banner a ip) avail), a') \<and>
     set avail = {u \<in> candidates a cats. \<exists>n. map_of (banner_shows a) u = Some n \<and> 0 < n} \<and>
     (cats \<noteq> [] \<longrightarrow> distinct avail) \<and>
     (\<forall>u\<in>set avail. \<forall>n. map_of (banner_shows a) u = Some n \<longrightarrow> \<not> n \<le> 0)"
proof -
  let ?cands = "fst (category_banners a cats h)"
  let ?avail = "filter (positive a) ?cands"
  have c: "consistent a" using reachable_consistent [OF assms] .
  have pos: "positive a u \<longleftrightarrow> (\<exists>n. map_of (banner_shows a) u = Some n \<and> 0 < n)" for u
    by (simp add: positive_def split: option.splits)
  have "budget_banners a cats h = (Inr ?avail, snd (category_banners a cats h))"
    using budget_banners_consistent [OF c] .
  moreover have "get_available_banners_for_categories a ip cats h =
      (Inr (remove_last_banner (get_last_banner a ip) ?avail), snd (category_banners a cats h))"
    using get_available_consistent [OF c] .
  moreover have "set ?avail = {u \<in> candidates a cats. \<exists>n. map_of (banner_shows a) u = Some n \<and> 0 < n}"
    by (auto simp: category_banners_set pos)
  moreover have "distinct ?avail" if "cats \<noteq> []"
    using category_banners_distinct [OF that] by simp
  moreover have "\<forall>u\<in>set ?avail. \<forall>n. map_of (banner_shows a) u = Some n \<longrightarrow> \<not> n \<le> 0"
    by (auto simp: pos)
  ultimately show ?thesis by blast
qed

theorem budget_eligible_set_witness:
  "reachable \<lparr>banner_urls = [''a.png'', ''b.png'', ''c.png''],
        banner_shows = [(''a.png'', 1), (''b.png'', 0), (''c.png'', 1)],
        banner_categories = [(''x'', [''a.png'', ''b.png''])], last_banners = []\<rparr> \<and>
   budget_banners \<lparr>banner_urls = [''a.png'', ''b.png'', ''c.png''],
        banner_shows = [(''a.png'', 1), (''b.png'', 0), (''c.png'', 1)],
        banner_categories = [(''x'', [''a.png'', ''b.png''])], last_banners = []\<rparr> [''x''] length =
     (Inr [''a.png''], \<lparr>banner_urls = [''a.png'', ''b.png'', ''c.png''],
        banner_shows = [(''a.png'', 1), (''b.png'', 0), (''c.png'', 1)],
        banner_categories = [(''x'', [''a.png'', ''b.png''])], last_banners = []\<rparr>) \<and>
   set [''a.png''] =
     {u \<in> candidates \<lparr>banner_urls = [''a.png'', ''b.png'', ''c.png''],
        banner_shows = [(''a.png'', 1), (''b.png'', 0), (''c.png'', 1)],
        banner_categories = [(''x'', [''a.png'', ''b.png''])], last_banners = []\<rparr> [''x''].
      \<exists>n. map_of [(''a.png'', 1), (''b.png'', 0), (''c.png'', 1::int)] u = Some n \<and> 0 < n}"
proof -
  let ?cur = "\<lparr>banner_urls = [''a.png'', ''b.png'', ''c.png''],
        banner_shows = [(''a.png'', 1), (''b.png'', 0), (''c.png'', 1)],
        banner_categories = [(''x'', [''a.png'', ''b.png''])], last_banners = []\<rparr>"
  have "read_config [[''a.png'', ''1'', ''x''], [''b.png'', ''0'', ''x''], [''c.png'', ''1'']] = Inr ?cur"
    by code_simp
  then have r: "reachable ?cur" by (rule reachable.start)
  have b: "budget_banners ?cur [''x''] length = (Inr [''a.png''], ?cur)"
    by code_simp
  from budget_eligible_set [OF r, of "[''x'']" length "''10.0.0.1''"] b
  have "set [''a.png''] =
     {u \<in> candidates ?cur [''x'']. \<exists>n. map_of (banner_shows ?cur) u = Some n \<and> 0 < n}"
    by auto
  with r b show ?thesis by simp
qed

text \<open>
  C2 on a configuration that names \<open>a.png\<close> in two records: the client that was just
  shown \<open>a.png\<close> asks again without a category. Three entries pass the count, the first
  \<open>a.png\<close> is removed, the second stays next to \<open>b.png\<close>, and the draw 0 answers
  \<open>a.png\<close> a second time although \<open>b.png\<close> was eligible.
\<close>

theorem repeated_banner_with_duplicate_records:
  "read_config [[''a.png'', ''5''], [''a.png'', ''5''], [''b.png'', ''5'']] =
     Inr \<lparr>banner_urls = [''a.png'', ''a.png'', ''b.png''],
          banner_shows = [(''a.png'', 5), (''b.png'', 5)],
          banner_categories = [], last_banners = []\<rparr> \<and>
   handler_get \<lparr>banner_urls = [''a.png'', ''a.png'', ''b.png''],
          banner_shows = [(''a.png'', 5), (''b.png'', 5)],
          banner_categories = [], last_banners = []\<rparr>
       \<lparr>categories = [], remote_ip = ''10.0.0.1''\<rparr> length 0 =
     (served ''a.png'',
      \<lparr>banner_urls = [''a.png'', ''a.png'', ''b.png''],
       banner_shows = [(''a.png'', 4), (''b.png'', 5)],
       banner_categories = [], last_banners = [(''10.0.0.1'', ''a.png'')]\<rparr>) \<and>
   budget_banners \<lparr>banner_urls = [''a.png'', ''a.png'', ''b.png''],
       banner_shows = [(''a.png'', 4), (''b.png'', 5)],
       banner_categories = [], last_banners = [(''10.0.0.1'', ''a.png'')]\<rparr> [] length =
     (Inr [''a.png'', ''a.png'', ''b.png''],
      \<lparr>banner_urls = [''a.png'', ''a.png'', ''b.png''],
       banner_shows = [(''a.png'', 4), (''b.png'', 5)],
       banner_categories = [], last_banners = [(''10.0.0.1'', ''a.png'')]\<rparr>) \<and>
   get_available_banners_for_categories \<lparr>banner_urls = [''a.png'', ''a.png'', ''b.png''],
       banner_shows = [(''a.png'', 4), (''b.png'', 5)],
       banner_categories = [], last_banners = [(''10.0.0.1'', ''a.png'')]\<rparr> ''10.0.0.1'' [] length =
     (Inr [''a.png'', ''b.png''],
      \<lparr>banner_urls = [''a.png'', ''a.png'', ''b.png''],
       banner_shows = [(''a.png'', 4), (''b.png'', 5)],
       banner_categories = [], last_banners = [(''10.0.0.1'', ''a.png'')]\<rparr>) \<and>
   fst (handler_get \<lparr>banner_urls = [''a.png'', ''a.png'', ''b.png''],
       banner_shows = [(''a.png'', 4), (''b.png'', 5)],
       banner_categories = [], last_banners = [(''10.0.0.1'', ''a.png'')]\<rparr>
       \<lparr>categories = [], remote_ip = ''10.0.0.1''\<rparr> length 0) = served ''a.png''"
  by code_simp

text \<open>
  C3, as the code has it: loading fails exactly when some record has fewer than two fields
  or a second field that \<open>int\<close> does not read as an integer. A single-field record is
  such a record, so it stops the start. The sign of the budget is not looked at: records
  with two fields or more and an integer of either sign load.
\<close>

theorem read_config_fails_iff:
  "(\<exists>e. read_config rows = Inl e) \<longleftrightarrow>
     (\<exists>row\<in>set rows. length row < 2 \<or> py_int (row ! 1) = None)"
  unfolding read_config_def by (rule read_rows_Inl_iff)

theorem read_config_fails_iff_witness:
  "(\<exists>e. read_config [[''a.png'', ''5'', ''x''], [''b.png'']] = Inl e) \<and>
   (\<exists>e. read_config [[''a.png'', [CHR 0x1C, CHR ''5'']]] = Inl e)"
proof -
  have short: "\<exists>row\<in>set [[''a.png'', ''5'', ''x''], [''b.png'']]. length row < 2 \<or> py_int (row ! 1) = None"
    by simp
  have "py_int [CHR 0x1C, CHR ''5''] = None"
    by code_simp
  then have sep: "\<exists>row\<in>set [[''a.png'', [CHR 0x1C, CHR ''5'']]]. length row < 2 \<or> py_int (row ! 1) = None"
    by simp
  from short sep show ?thesis
    using read_config_fails_iff [of "[[''a.png'', ''5'', ''x''], [''b.png'']]"]
      read_config_fails_iff [of "[[''a.png'', [CHR 0x1C, CHR ''5'']]]"]
    by blast
qed

text \<open>
  C3 as stated fails: a record whose budget is the negative integer \<open>-5\<close> loads, and
  the count of the banner starts at \<open>-5\<close>.
\<close>

theorem read_config_negative_budget:
  "read_config [[''a.png'', ''-5'']] =
     Inr \<lparr>banner_urls = [''a.png''], banner_shows = [(''a.png'', - 5)],
          banner_categories = [], last_banners = []\<rparr>"
  by code_simp

text \<open>
  C4: after a run from the loaded state in which banner \<open>x\<close> with budget \<open>b\<close> was
  served \<open>N\<close> times, its count is \<open>b - N\<close>; with a budget that is not negative
  \<open>N\<close> never exceeds \<open>b\<close>; and once \<open>N = b\<close> no request finds \<open>x\<close> available,
  and a request whose categories hold no banner but \<open>x\<close> is answered not found.
\<close>

theorem selections_spend_budget:
  assumes "read_config rows = Inr a0" and "map_of (banner_shows a0) x = Some b"
    and "serve a0 reqs = (resps, a)"
  shows "map_of (banner_shows a) x = Some (b - int (selections x resps)) \<and>
     (0 \<le> b \<longrightarrow> int (selections x resps) \<le> b) \<and>
     (int (selections x resps) = b \<longrightarrow>
        (\<forall>ip cats h. \<exists>av a'.
           get_available_banners_for_categories a ip cats h = (Inr av, a') \<and> x \<notin> set av) \<and>
        (\<forall>ip cats h r. cats \<noteq> [] \<and> candidates a cats \<subseteq> {x} \<longrightarrow>
           fst (handler_get a \<lparr>categories = cats, remote_ip = ip\<rparr> h r) = Inr banner_not_found))"
proof -
  have c0: "consistent a0" using read_config_consistent [OF assms(1)] .
  have c: "consistent a" using serve_consistent [OF c0 assms(3)] .
  have count: "map_of (banner_shows a) x = Some (b - int (selections x resps))"
    using serve_count [OF c0 assms(3,2)] .
  have le: "int (selections x resps) \<le> b" if "0 \<le> b"
    using serve_nonneg [OF c0 assms(3,2) that] count by auto
  have gone: "\<exists>av a'. get_available_banners_for_categories a ip cats h = (Inr av, a') \<and> x \<notin> set av"
    if "int (selections x resps) = b" for ip cats h
  proof -
    have "\<not> positive a x" using count that by (simp add: positive_def)
    then show ?thesis by (rule exhausted_not_available [OF c])
  qed
  have nf: "fst (handler_get a \<lparr>categories = cats, remote_ip = ip\<rparr> h r) = Inr banner_not_found"
    if "int (selections x resps) = b" and "candidates a cats \<subseteq> {x}" for ip cats h r
  proof -
    let ?req = "\<lparr>categories = cats, remote_ip = ip\<rparr>"
    have "\<not> positive a x" using count that(1) by (simp add: positive_def)
    then have "\<forall>u\<in>candidates a (categories ?req). \<not> positive a u"
      using that(2) by auto
    from no_positive_candidate_not_found [OF c this, of h]
    have "fst (get_available_banners_for_categories a (remote_ip ?req) (categories ?req) h) = Inr []"
      by simp
    from empty_available_not_found [OF this, of r] show ?thesis by auto
  qed
  from count le gone nf show ?thesis by blast
qed

theorem selections_spend_budget_witness:
  "read_config [[''a.png'', ''1'', ''x'']] =
     Inr \<lparr>banner_urls = [''a.png''], banner_shows = [(''a.png'', 1)],
          banner_categories = [(''x'', [''a.png''])], last_banners = []\<rparr> \<and>
   serve \<lparr>banner_urls = [''a.png''], banner_shows = [(''a.png'', 1)],
          banner_categories = [(''x'', [''a.png''])], last_banners = []\<rparr>
       [(\<lparr>categories = [''x''], remote_ip = ''10.0.0.1''\<rparr>, length, 0)] =
     ([served ''a.png''],
      \<lparr>banner_urls = [''a.png''], banner_shows = [(''a.png'', 0)],
       banner_categories = [(''x'', [''a.png''])], last_banners = [(''10.0.0.1'', ''a.png'')]\<rparr>) \<and>
   selections ''a.png'' [served ''a.png''] = 1 \<and>
   fst (handler_get
         \<lparr>banner_urls = [''a.png''], banner_shows = [(''a.png'', 0)],
          banner_categories = [(''x'', [''a.png''])], last_banners = [(''10.0.0.1'', ''a.png'')]\<rparr>
         \<lparr>categories = [''x''], remote_ip = ''10.0.0.2''\<rparr> length 0) = Inr banner_not_found"
proof -
  let ?init = "\<lparr>banner_urls = [''a.png''], banner_shows = [(''a.png'', 1)],
          banner_categories = [(''x'', [''a.png''])], last_banners = []\<rparr>"
  let ?cur = "\<lparr>banner_urls = [''a.png''], banner_shows = [(''a.png'', 0)],
       banner_categories = [(''x'', [''a.png''])], last_banners = [(''10.0.0.1'', ''a.png'')]\<rparr>"
  have load: "read_config [[''a.png'', ''1'', ''x'']] = Inr ?init"
    by code_simp
  have b: "map_of (banner_shows ?init) ''a.png'' = Some 1"
    by simp
  have run: "serve ?init [(\<lparr>categories = [''x''], remote_ip = ''10.0.0.1''\<rparr>, length, 0)] =
      ([served ''a.png''], ?cur)"
    by code_simp
  have sel: "selections ''a.png'' [served ''a.png''] = 1"
    by (simp add: selections_def)
  have only: "[''x''] \<noteq> [] \<and> candidates ?cur [''x''] \<subseteq> {''a.png''}"
    by (simp add: candidates_def registered_def)
  from selections_spend_budget [OF load b run] sel only
  have "fst (handler_get ?cur \<lparr>categories = [''x''], remote_ip = ''10.0.0.2''\<rparr> length 0) =
      Inr banner_not_found"
    by simp
  with load run sel show ?thesis by simp
qed

text \<open>
  C5: a request that follows any run from the loaded state leaves each count as it was or
  lowers by one a count that was above zero; a count that was not negative when loaded is
  not negative before and after that request.
\<close>

theorem counts_never_negative:
  assumes "read_config rows = Inr a0" and "serve a0 reqs = (resps, a)"
    and "handler_get a req h r = (res, a')"
  shows "(\<forall>u n. map_of (banner_shows a) u = Some n \<longrightarrow>
            map_of (banner_shows a') u = Some n \<or>
            0 < n \<and> map_of (banner_shows a') u = Some (n - 1)) \<and>
         (\<forall>u n0. map_of (banner_shows a0) u = Some n0 \<and> 0 \<le> n0 \<longrightarrow>
            (\<exists>n. map_of (banner_shows a) u = Some n \<and> 0 \<le> n) \<and>
            (\<exists>n'. map_of (banner_shows a') u = Some n' \<and> 0 \<le> n'))"
proof -
  have c0: "consistent a0" using read_config_consistent [OF assms(1)] .
  have c: "consistent a" using serve_consistent [OF c0 assms(2)] .
  have one: "map_of (banner_shows a') u = Some n \<or>
      0 < n \<and> map_of (banner_shows a') u = Some (n - 1)"
    if "map_of (banner_shows a) u = Some n" for u n
    using handler_get_count [OF c assms(3) that] by (cases "res = served u") simp_all
  have two: "(\<exists>n. map_of (banner_shows a) u = Some n \<and> 0 \<le> n) \<and>
      (\<exists>n'. map_of (banner_shows a') u = Some n' \<and> 0 \<le> n')"
    if start: "map_of (banner_shows a0) u = Some n0" "0 \<le> n0" for u n0
  proof -
    obtain n where n: "map_of (banner_shows a) u = Some n" "0 \<le> n"
      using serve_nonneg [OF c0 assms(2) start] by blast
    with handler_get_nonneg [OF c assms(3) n] show ?thesis by blast
  qed
  from one two show ?thesis by blast
qed

theorem counts_never_negative_witness:
  "read_config [[''a.png'', ''1'', ''x'']] =
     Inr \<lparr>banner_urls = [''a.png''], banner_shows = [(''a.png'', 1)],
          banner_categories = [(''x'', [''a.png''])], last_banners = []\<rparr> \<and>
   serve \<lparr>banner_urls = [''a.png''], banner_shows = [(''a.png'', 1)],
          banner_categories = [(''x'', [''a.png''])], last_banners = []\<rparr>
       [(\<lparr>categories = [''x''], remote_ip = ''10.0.0.1''\<rparr>, length, 0)] =
     ([served ''a.png''],
      \<lparr>banner_urls = [''a.png''], banner_shows = [(''a.png'', 0)],
       banner_categories = [(''x'', [''a.png''])], last_banners = [(''10.0.0.1'', ''a.png'')]\<rparr>) \<and>
   (\<exists>n'. map_of (banner_shows (snd (handler_get
         \<lparr>banner_urls = [''a.png''], banner_shows = [(''a.png'', 0)],
          banner_categories = [(''x'', [''a.png''])], last_banners = [(''10.0.0.1'', ''a.png'')]\<rparr>
         \<lparr>categories = [], remote_ip = ''10.0.0.1''\<rparr> length 7))) ''a.png'' = Some n' \<and> 0 \<le> n')"
proof -
  let ?init = "\<lparr>banner_urls = [''a.png''], banner_shows = [(''a.png'', 1)],
          banner_categories = [(''x'', [''a.png''])], last_banners = []\<rparr>"
  let ?cur = "\<lparr>banner_urls = [''a.png''], banner_shows = [(''a.png'', 0)],
       banner_categories = [(''x'', [''a.png''])], last_banners = [(''10.0.0.1'', ''a.png'')]\<rparr>"
  let ?req = "\<lparr>categories = [], remote_ip = ''10.0.0.1''\<rparr>"
  have load: "read_config [[''a.png'', ''1'', ''x'']] = Inr ?init"
    by code_simp
  have run: "serve ?init [(\<lparr>categories = [''x''], remote_ip = ''10.0.0.1''\<rparr>, length, 0)] =
      ([served ''a.png''], ?cur)"
    by code_simp
  have last: "handler_get ?cur ?req length 7 =
      (fst (handler_get ?cur ?req length 7), snd (handler_get ?cur ?req length 7))"
    by simp
  have b: "map_of (banner_shows ?init) ''a.png'' = Some 1 \<and> (0::int) \<le> 1"
    by simp
  from counts_never_negative [OF load run last] b
  have "\<exists>n'. map_of (banner_shows (snd (handler_get ?cur ?req length 7))) ''a.png'' = Some n' \<and> 0 \<le> n'"
    by blast
  with load run show ?thesis by simp
qed

text \<open>
  C6, as the code has it: in every state of a running server, a request whose candidates
  all lack a positive count (none matches, or all that match are used up) has no available
  banner, and a request with no available banner is answered not found with every count,
  every last-banner entry and the list of banners unchanged; the one thing it writes is the
  index, which gains each requested category it lacked, with an empty list.
\<close>

theorem not_found_changes_nothing:
  assumes "reachable a"
  shows "((\<forall>u\<in>candidates a (categories req). \<not> positive a u) \<longrightarrow>
            fst (get_available_banners_for_categories a (remote_ip req) (categories req) h) = Inr []) \<and>
         (fst (get_available_banners_for_categories a (remote_ip req) (categories req) h) = Inr [] \<longrightarrow>
            (\<exists>a' new. handler_get a req h r = (Inr banner_not_found, a') \<and>
               banner_shows a' = banner_shows a \<and> last_banners a' = last_banners a \<and>
               banner_urls a' = banner_urls a \<and>
               banner_categories a' = banner_categories a @ map (\<lambda>c. (c, [])) new \<and>
               distinct new \<and>
               set new = set (categories req) - fst ` set (banner_categories a)))"
proof -
  have c: "consistent a" using reachable_consistent [OF assms] .
  have first: "fst (get_available_banners_for_categories a (remote_ip req) (categories req) h) = Inr []"
    if "\<forall>u\<in>candidates a (categories req). \<not> positive a u"
    using no_positive_candidate_not_found [OF c that, of h] by simp
  have second: "\<exists>a' new. handler_get a req h r = (Inr banner_not_found, a') \<and>
      banner_shows a' = banner_shows a \<and> last_banners a' = last_banners a \<and>
      banner_urls a' = banner_urls a \<and>
      banner_categories a' = banner_categories a @ map (\<lambda>c. (c, [])) new \<and>
      distinct new \<and>
      set new = set (categories req) - fst ` set (banner_categories a)"
    if "fst (get_available_banners_for_categories a (remote_ip req) (categories req) h) = Inr []"
  proof -
    from empty_available_not_found [OF that, of r] obtain a' where
      a': "handler_get a req h r = (Inr banner_not_found, a')"
        "banner_shows a' = banner_shows a" "last_banners a' = last_banners a"
      by blast
    have s: "snd (handler_get a req h r) = a'"
      using a'(1) by simp
    have "banner_urls a' = banner_urls a"
      using handler_get_inventory [of a req h r] by (simp add: s)
    moreover obtain new where
      "banner_categories a' = banner_categories a @ map (\<lambda>c. (c, [])) new"
      "distinct new" "set new = set (categories req) - fst ` set (banner_categories a)"
      using handler_get_index [of a req h r] unfolding s by blast
    ultimately show ?thesis using a' by blast
  qed
  from first second show ?thesis by blast
qed

theorem not_found_changes_nothing_witness:
  "reachable \<lparr>banner_urls = [''a.png'', ''b.png''],
        banner_shows = [(''a.png'', 0), (''b.png'', 1)],
        banner_categories = [(''x'', [''a.png''])], last_banners = []\<rparr> \<and>
   handler_get \<lparr>banner_urls = [''a.png'', ''b.png''],
        banner_shows = [(''a.png'', 0), (''b.png'', 1)],
        banner_categories = [(''x'', [''a.png''])], last_banners = []\<rparr>
      \<lparr>categories = [''x'', ''zzz''], remote_ip = ''10.0.0.1''\<rparr> length 0 =
     (Inr banner_not_found,
      \<lparr>banner_urls = [''a.png'', ''b.png''],
        banner_shows = [(''a.png'', 0), (''b.png'', 1)],
        banner_categories = [(''x'', [''a.png'']), (''zzz'', [])], last_banners = []\<rparr>)"
proof -
  let ?cur = "\<lparr>banner_urls = [''a.png'', ''b.png''],
        banner_shows = [(''a.png'', 0), (''b.png'', 1)],
        banner_categories = [(''x'', [''a.png''])], last_banners = []\<rparr>"
  let ?req = "\<lparr>categories = [''x'', ''zzz''], remote_ip = ''10.0.0.1''\<rparr>"
  have "read_config [[''a.png'', ''0'', ''x''], [''b.png'', ''1'']] = Inr ?cur"
    by code_simp
  then have r: "reachable ?cur" by (rule reachable.start)
  have none: "\<forall>u\<in>candidates ?cur (categories ?req). \<not> positive ?cur u"
    by (simp add: candidates_def registered_def positive_def)
  from not_found_changes_nothing [OF r, of ?req length 0] none
  obtain a' where a': "handler_get ?cur ?req length 0 = (Inr banner_not_found, a')"
    by blast
  have "snd (handler_get ?cur ?req length 0) =
      \<lparr>banner_urls = [''a.png'', ''b.png''],
        banner_shows = [(''a.png'', 0), (''b.png'', 1)],
        banner_categories = [(''x'', [''a.png'']), (''zzz'', [])], last_banners = []\<rparr>"
    by code_simp
  with a' r show ?thesis by simp
qed

text \<open>
  C6 as stated fails: a request for the category \<open>sport\<close>, which no record names, is
  answered not found, and the state after it is not the state before it.
\<close>

theorem not_found_request_changes_state:
  "read_config [[''a.png'', ''1'', ''news'']] =
     Inr \<lparr>banner_urls = [''a.png''], banner_shows = [(''a.png'', 1)],
          banner_categories = [(''news'', [''a.png''])], last_banners = []\<rparr> \<and>
   get_available_banners_for_categories
       \<lparr>banner_urls = [''a.png''], banner_shows = [(''a.png'', 1)],
        banner_categories = [(''news'', [''a.png''])], last_banners = []\<rparr>
       ''10.0.0.1'' [''sport''] length =
     (Inr [],
      \<lparr>banner_urls = [''a.png''], banner_shows = [(''a.png'', 1)],
       banner_categories = [(''news'', [''a.png'']), (''sport'', [])], last_banners = []\<rparr>) \<and>
   fst (handler_get
       \<lparr>banner_urls = [''a.png''], banner_shows = [(''a.png'', 1)],
        banner_categories = [(''news'', [''a.png''])], last_banners = []\<rparr>
       \<lparr>categories = [''sport''], remote_ip = ''10.0.0.1''\<rparr> length 0) = Inr banner_not_found \<and>
   snd (handler_get
       \<lparr>banner_urls = [''a.png''], banner_shows = [(''a.png'', 1)],
        banner_categories = [(''news'', [''a.png''])], last_banners = []\<rparr>
       \<lparr>categories = [''sport''], remote_ip = ''10.0.0.1''\<rparr> length 0) \<noteq>
     \<lparr>banner_urls = [''a.png''], banner_shows = [(''a.png'', 1)],
      banner_categories = [(''news'', [''a.png''])], last_banners = []\<rparr>"
  by code_simp

text \<open>
  C7, as the code has it: a request never changes the list of banners nor the banners that
  any category holds, but every requested category that the index lacks is added to the
  index with an empty list.
\<close>

theorem request_keeps_banners_of_categories:
  "banner_urls (snd (handler_get a req h r)) = banner_urls a \<and>
   (\<exists>new. banner_categories (snd (handler_get a req h r)) =
            banner_categories a @ map (\<lambda>c. (c, [])) new \<and>
          distinct new \<and>
          set new = set (categories req) - fst ` set (banner_categories a)) \<and>
   (\<forall>c. registered (banner_categories (snd (handler_get a req h r))) c =
        registered (banner_categories a) c)"
proof -
  have idx: "banner_categories (snd (category_banners a (categories req) h)) =
      snd (collect_banners (banner_categories a) (categories req))"
    by (cases "categories req") (simp_all add: category_banners_def split_beta)
  from collect_banners_index [of "banner_categories a" "categories req"]
  show ?thesis
    by (simp add: handler_get_inventory idx collect_banners_registered)
qed

text \<open>
  C7 as stated fails: after a request for the category \<open>zzz\<close>, which no record names,
  the index has the new key \<open>zzz\<close>.
\<close>

theorem unknown_category_grows_index:
  "read_config [[''a.png'', ''1'', ''x'']] =
     Inr \<lparr>banner_urls = [''a.png''], banner_shows = [(''a.png'', 1)],
          banner_categories = [(''x'', [''a.png''])], last_banners = []\<rparr> \<and>
   handler_get \<lparr>banner_urls = [''a.png''], banner_shows = [(''a.png'', 1)],
          banner_categories = [(''x'', [''a.png''])], last_banners = []\<rparr>
       \<lparr>categories = [''zzz''], remote_ip = ''10.0.0.1''\<rparr> length 0 =
     (Inr banner_not_found,
      \<lparr>banner_urls = [''a.png''], banner_shows = [(''a.png'', 1)],
       banner_categories = [(''x'', [''a.png'']), (''zzz'', [])], last_banners = []\<rparr>) \<and>
   banner_categories (snd (handler_get \<lparr>banner_urls = [''a.png''], banner_shows = [(''a.png'', 1)],
          banner_categories = [(''x'', [''a.png''])], last_banners = []\<rparr>
       \<lparr>categories = [''zzz''], remote_ip = ''10.0.0.1''\<rparr> length 0)) \<noteq>
     banner_categories \<lparr>banner_urls = [''a.png''], banner_shows = [(''a.png'', 1)],
          banner_categories = [(''x'', [''a.png''])], last_banners = []\<rparr>"
  by code_simp

text \<open>
  C8: in every state of a running server, a requested category that the index lacks yields
  the empty list, the candidates are the union of what the other requested categories hold,
  and the request ends with a response, not with an exception.
\<close>

theorem unknown_category_adds_nothing:
  assumes "reachable a" and "c \<notin> fst ` set (banner_categories a)" and "c \<in> set cats"
  shows "fst (getitem_default (banner_categories a) c) = [] \<and>
     set (fst (category_banners a cats h)) =
       {} \<union> (\<Union>k\<in>set cats - {c}. set (registered (banner_categories a) k)) \<and>
     (\<exists>res a'. handler_get a \<lparr>categories = cats, remote_ip = ip\<rparr> h r = (Inr res, a'))"
proof -
  have c: "consistent a" using reachable_consistent [OF assms(1)] .
  have none: "registered (banner_categories a) c = []"
    using assms(2) by (simp add: registered_def map_of_eq_None_iff [THEN iffD2])
  have "fst (getitem_default (banner_categories a) c) = []"
    by (simp add: fst_getitem_default none)
  moreover have "set (fst (category_banners a cats h)) =
      {} \<union> (\<Union>k\<in>set cats - {c}. set (registered (banner_categories a) k))"
  proof -
    have "cats \<noteq> []" using assms(3) by auto
    then have "candidates a cats = (\<Union>k\<in>set cats. set (registered (banner_categories a) k))"
      by (simp add: candidates_def)
    also have "\<dots> = (\<Union>k\<in>set cats - {c}. set (registered (banner_categories a) k))"
      using none by auto
    finally show ?thesis by (simp add: category_banners_set)
  qed
  moreover have "\<exists>res a'. handler_get a \<lparr>categories = cats, remote_ip = ip\<rparr> h r = (Inr res, a')"
  proof -
    obtain res a' where g: "handler_get a \<lparr>categories = cats, remote_ip = ip\<rparr> h r = (res, a')"
      by (cases "handler_get a \<lparr>categories = cats, remote_ip = ip\<rparr> h r")
    from handler_get_step [OF c g] have "\<exists>p. res = Inr p"
      by (auto simp: served_def)
    with g show ?thesis by auto
  qed
  ultimately show ?thesis by blast
qed

theorem unknown_category_adds_nothing_witness:
  "reachable \<lparr>banner_urls = [''a.png'', ''b.png''],
        banner_shows = [(''a.png'', 1), (''b.png'', 1)],
        banner_categories = [(''x'', [''a.png''])], last_banners = []\<rparr> \<and>
   set (fst (category_banners \<lparr>banner_urls = [''a.png'', ''b.png''],
        banner_shows = [(''a.png'', 1), (''b.png'', 1)],
        banner_categories = [(''x'', [''a.png''])], last_banners = []\<rparr> [''zzz'', ''x''] length)) =
     {''a.png''} \<and>
   (\<exists>res a'. handler_get \<lparr>banner_urls = [''a.png'', ''b.png''],
        banner_shows = [(''a.png'', 1), (''b.png'', 1)],
        banner_categories = [(''x'', [''a.png''])], last_banners = []\<rparr>
      \<lparr>categories = [''zzz'', ''x''], remote_ip = ''10.0.0.1''\<rparr> length 0 = (Inr res, a'))"
proof -
  let ?cur = "\<lparr>banner_urls = [''a.png'', ''b.png''],
        banner_shows = [(''a.png'', 1), (''b.png'', 1)],
        banner_categories = [(''x'', [''a.png''])], last_banners = []\<rparr>"
  have "read_config [[''a.png'', ''1'', ''x''], [''b.png'', ''1'']] = Inr ?cur"
    by code_simp
  then have r: "reachable ?cur" by (rule reachable.start)
  have unknown: "''zzz'' \<notin> fst ` set (banner_categories ?cur)"
    by simp
  have requested: "''zzz'' \<in> set [''zzz'', ''x'']"
    by simp
  have rest: "set [''zzz'', ''x''] - {''zzz''} = {''x''}"
    by auto
  from unknown_category_adds_nothing [OF r unknown requested, of length "''10.0.0.1''" 0] r
  show ?thesis
    by (simp add: rest registered_def)
qed

text \<open>
  C9, as the code has it: the body starts with the identifier as plain text and ends with
  one image element whose source is the identifier and whose alternate text is
  \<open>Banner\<close>; nothing else is added, and the only tag the wrapper opens is that image.
\<close>

theorem banner_wrapper_shape:
  "prefix url (banner_wrapper url) \<and>
   suffix (''<img src='' @ [CHR 0x22] @ url @ [CHR 0x22] @ '' alt='' @ [CHR 0x22] @ ''Banner''
             @ [CHR 0x22] @ ''>'') (banner_wrapper url) \<and>
   length (banner_wrapper url) = 2 * length url + 25 \<and>
   count_list (banner_wrapper url) (CHR ''<'') = 2 * count_list url (CHR ''<'') + 1"
  by (simp add: banner_wrapper_def suffix_def)

text \<open>
  C9 as stated fails: the page for \<open>a.png\<close> has no alternate text \<open>Banner.\<close> with a
  full stop, and neither a link attribute nor an anchor element around the identifier.
\<close>

theorem banner_wrapper_no_link_no_period:
  "banner_wrapper ''a.png'' =
     ''a.png<img src='' @ [CHR 0x22] @ ''a.png'' @ [CHR 0x22] @ '' alt='' @ [CHR 0x22]
       @ ''Banner'' @ [CHR 0x22] @ ''>'' \<and>
   \<not> sublist ''Banner.'' (banner_wrapper ''a.png'') \<and>
   \<not> sublist ''href'' (banner_wrapper ''a.png'') \<and>
   \<not> sublist ''<a'' (banner_wrapper ''a.png'')"
  by code_simp

text \<open>
  C10: after a successful load, the list of banners has the identifier of every record in
  order (so an identifier occurs once per record that names it), the counts hold exactly
  one entry for an identifier that occurs, with the budget of the last record that names
  it, and a category holds the identifier of a record once for each time the record names
  the category.
\<close>

theorem duplicate_records:
  assumes "read_config rows = Inr a"
  shows "banner_urls a = map hd rows \<and>
     (\<forall>url. count_list (banner_urls a) url = length (filter (\<lambda>row. hd row = url) rows)) \<and>
     (\<forall>url. filter (\<lambda>row. hd row = url) rows \<noteq> [] \<longrightarrow>
        (\<exists>n. py_int (last (filter (\<lambda>row. hd row = url) rows) ! 1) = Some n \<and>
           filter (\<lambda>p. fst p = url) (banner_shows a) = [(url, n)])) \<and>
     (\<forall>c. registered (banner_categories a) c =
        concat (map (\<lambda>row. replicate (count_list (drop 2 row) c) (hd row)) rows))"
proof -
  have rows: "read_rows empty_application rows = Inr a"
    using assms by (simp add: read_config_def)
  have urls: "banner_urls a = map hd rows"
    using read_rows_urls [OF rows] by (simp add: empty_application_def)
  have dist: "distinct (map fst (banner_shows a))"
    using read_rows_distinct [OF rows] by (simp add: empty_application_def)
  have entry: "\<exists>n. py_int (last (filter (\<lambda>row. hd row = url) rows) ! 1) = Some n \<and>
      filter (\<lambda>p. fst p = url) (banner_shows a) = [(url, n)]"
    if "filter (\<lambda>row. hd row = url) rows \<noteq> []" for url
  proof -
    have m: "map_of (banner_shows a) url = py_int (last (filter (\<lambda>row. hd row = url) rows) ! 1)"
      using read_rows_shows [OF rows, of url] that by simp
    have "url \<in> fst ` set (banner_shows a)"
    proof -
      from that obtain row where "row \<in> set rows" "hd row = url"
        by (auto simp: filter_empty_conv)
      then have "url \<in> set (banner_urls a)" by (auto simp: urls)
      then show ?thesis
        using read_config_consistent [OF assms] by (auto simp: consistent_def)
    qed
    then obtain n where n: "map_of (banner_shows a) url = Some n"
      by (cases "map_of (banner_shows a) url") (auto simp: map_of_eq_None_iff)
    with m single_entry [OF dist n] show ?thesis by auto
  qed
  have cats: "registered (banner_categories a) c =
      concat (map (\<lambda>row. replicate (count_list (drop 2 row) c) (hd row)) rows)" for c
    using read_rows_registered [OF rows, of c] by (simp add: empty_application_def registered_def)
  from urls entry cats show ?thesis
    by (simp add: count_list_map_hd)
qed

theorem duplicate_records_witness:
  "read_config [[''a.png'', ''3'', ''x''], [''a.png'', ''7'', ''x'', ''y''], [''b.png'', ''1'', ''x'']] =
     Inr \<lparr>banner_urls = [''a.png'', ''a.png'', ''b.png''],
          banner_shows = [(''a.png'', 7), (''b.png'', 1)],
          banner_categories = [(''x'', [''a.png'', ''a.png'', ''b.png'']), (''y'', [''a.png''])],
          last_banners = []\<rparr> \<and>
   count_list [''a.png'', ''a.png'', ''b.png''] ''a.png'' =
     length (filter (\<lambda>row. hd row = ''a.png'')
       [[''a.png'', ''3'', ''x''], [''a.png'', ''7'', ''x'', ''y''], [''b.png'', ''1'', ''x'']])"
proof -
  let ?rows = "[[''a.png'', ''3'', ''x''], [''a.png'', ''7'', ''x'', ''y''], [''b.png'', ''1'', ''x'']]"
  let ?cur = "\<lparr>banner_urls = [''a.png'', ''a.png'', ''b.png''],
          banner_shows = [(''a.png'', 7), (''b.png'', 1)],
          banner_categories = [(''x'', [''a.png'', ''a.png'', ''b.png'']), (''y'', [''a.png''])],
          last_banners = []\<rparr>"
  have load: "read_config ?rows = Inr ?cur"
    by code_simp
  from duplicate_records [OF load]
  have "count_list (banner_urls ?cur) ''a.png'' = length (filter (\<lambda>row. hd row = ''a.png'') ?rows)"
    by blast
  with load show ?thesis by simp
qed

end
